theory Spec2Isabelle
  imports Main "HOL-Library.Sublist" "HOL-Library.AList"
begin

section \<open>Python strings\<close>

text \<open>
  The validator of \<^verbatim>\<open>services/service_description_validator.py\<close> works on Python
  \<^verbatim>\<open>str\<close> values.  A text is modelled as a \<^typ>\<open>string\<close>; a character stands for a
  code point below 256, and the character predicates below are those of Python on that
  range.
\<close>

definition NL :: char where
  "NL = CHR 0x0A"

text \<open>\<^verbatim>\<open>str.isspace\<close> on one character; it is also the class \<^verbatim>\<open>\s\<close> of \<^verbatim>\<open>re\<close>.\<close>

definition isspace :: "char \<Rightarrow> bool" where
  "isspace c = (c \<in> set [CHR 0x09, CHR 0x0A, CHR 0x0B, CHR 0x0C, CHR 0x0D,
                          CHR 0x1C, CHR 0x1D, CHR 0x1E, CHR 0x1F, CHR 0x20,
                          CHR 0x85, CHR 0xA0])"

definition upper_chars :: string where
  "upper_chars = ''ABCDEFGHIJKLMNOPQRSTUVWXYZ'' @
     [CHR 0xC0, CHR 0xC1, CHR 0xC2, CHR 0xC3, CHR 0xC4, CHR 0xC5, CHR 0xC6, CHR 0xC7,
      CHR 0xC8, CHR 0xC9, CHR 0xCA, CHR 0xCB, CHR 0xCC, CHR 0xCD, CHR 0xCE, CHR 0xCF,
      CHR 0xD0, CHR 0xD1, CHR 0xD2, CHR 0xD3, CHR 0xD4, CHR 0xD5, CHR 0xD6,
      CHR 0xD8, CHR 0xD9, CHR 0xDA, CHR 0xDB, CHR 0xDC, CHR 0xDD, CHR 0xDE]"

definition lower_chars :: string where
  "lower_chars = ''abcdefghijklmnopqrstuvwxyz'' @
     [CHR 0xE0, CHR 0xE1, CHR 0xE2, CHR 0xE3, CHR 0xE4, CHR 0xE5, CHR 0xE6, CHR 0xE7,
      CHR 0xE8, CHR 0xE9, CHR 0xEA, CHR 0xEB, CHR 0xEC, CHR 0xED, CHR 0xEE, CHR 0xEF,
      CHR 0xF0, CHR 0xF1, CHR 0xF2, CHR 0xF3, CHR 0xF4, CHR 0xF5, CHR 0xF6,
      CHR 0xF8, CHR 0xF9, CHR 0xFA, CHR 0xFB, CHR 0xFC, CHR 0xFD, CHR 0xFE]"

definition lower_char :: "char \<Rightarrow> char" where
  "lower_char c = (case map_of (zip upper_chars lower_chars) c of Some d \<Rightarrow> d | None \<Rightarrow> c)"

text \<open>\<^verbatim>\<open>s.lower()\<close>\<close>

definition lower :: "string \<Rightarrow> string" where
  "lower s = map lower_char s"

text \<open>\<^verbatim>\<open>s.strip()\<close>\<close>

definition strip :: "string \<Rightarrow> string" where
  "strip s = rev (dropWhile isspace (rev (dropWhile isspace s)))"

text \<open>\<^verbatim>\<open>s[a:b]\<close> for \<open>0 \<le> a\<close> and \<open>0 \<le> b\<close>\<close>

definition slice :: "'a list \<Rightarrow> nat \<Rightarrow> nat \<Rightarrow> 'a list" where
  "slice s a b = take (b - a) (drop a s)"

text \<open>\<^verbatim>\<open>sep.join(xs)\<close>\<close>

fun join :: "string \<Rightarrow> string list \<Rightarrow> string" where
  "join sep [] = []"
| "join sep [x] = x"
| "join sep (x # y # ys) = x @ sep @ join sep (y # ys)"

text \<open>\<^verbatim>\<open>s.replace(old, new)\<close> for a one-character \<^verbatim>\<open>old\<close>\<close>

definition replace_char :: "char \<Rightarrow> string \<Rightarrow> string \<Rightarrow> string" where
  "replace_char old new s = concat (map (\<lambda>c. if c = old then new else [c]) s)"

section \<open>The regular expressions of the validator\<close>

text \<open>
  The patterns of the validator use literal text, single-character classes, greedy and
  lazy repetition of a single-character class, an alternation of literal words, the
  anchors \<^verbatim>\<open>^\<close> and \<^verbatim>\<open>$\<close>, and capture groups.  A pattern is a list of items
  matched left to right by backtracking, with the priorities of \<^verbatim>\<open>re\<close>: a greedy
  repetition tries the longest run first, a lazy one the shortest, an alternation its
  words in order.  A group \<open>n\<close> is delimited by \<open>Save (2 * n)\<close> and
  \<open>Save (2 * n + 1)\<close>.
\<close>

record flags =
  ignorecase :: bool
  multiline :: bool
  dotall :: bool

definition no_flags :: flags where
  "no_flags = \<lparr>ignorecase = False, multiline = False, dotall = False\<rparr>"

definition flag_I :: flags where
  "flag_I = no_flags\<lparr>ignorecase := True\<rparr>"

definition flag_M :: flags where
  "flag_M = no_flags\<lparr>multiline := True\<rparr>"

definition flag_S :: flags where
  "flag_S = no_flags\<lparr>dotall := True\<rparr>"

definition flag_SI :: flags where
  "flag_SI = no_flags\<lparr>dotall := True, ignorecase := True\<rparr>"

definition flag_MI :: flags where
  "flag_MI = no_flags\<lparr>multiline := True, ignorecase := True\<rparr>"

datatype cls =
    Ch char                       \<comment> \<open>a literal character\<close>
  | Dot                           \<comment> \<open>\<^verbatim>\<open>.\<close>\<close>
  | Ws                            \<comment> \<open>\<^verbatim>\<open>\s\<close>\<close>
  | OneOf string                  \<comment> \<open>\<^verbatim>\<open>[...]\<close>, the members listed\<close>
  | NotIn "(char \<times> char) list"    \<comment> \<open>\<^verbatim>\<open>[^a-b...]\<close>, the excluded ranges listed\<close>

datatype item =
    One cls                       \<comment> \<open>one character of the class\<close>
  | Rep cls nat "nat option" bool \<comment> \<open>class, least count, greatest count, greedy\<close>
  | Alt "string list"             \<comment> \<open>\<^verbatim>\<open>w1|w2|...\<close> of literal words; one word is literal text\<close>
  | Bol                           \<comment> \<open>\<^verbatim>\<open>^\<close>\<close>
  | Eol                           \<comment> \<open>\<^verbatim>\<open>$\<close>\<close>
  | Save nat                      \<comment> \<open>group boundary\<close>

type_synonym caps = "(nat \<times> nat) list"

definition same_char :: "flags \<Rightarrow> char \<Rightarrow> char \<Rightarrow> bool" where
  "same_char fl c x = (if ignorecase fl then lower_char x = lower_char c else x = c)"

definition in_range :: "char \<times> char \<Rightarrow> char \<Rightarrow> bool" where
  "in_range r x = ((of_char (fst r) :: nat) \<le> of_char x \<and> (of_char x :: nat) \<le> of_char (snd r))"

text \<open>
  The only negated class of the validator, \<^verbatim>\<open>[^a-zA-Z0-9]\<close>, excludes both cases of
  every letter, so that \<^verbatim>\<open>re.I\<close> does not change it.
\<close>

fun cls_match :: "flags \<Rightarrow> cls \<Rightarrow> char \<Rightarrow> bool" where
  "cls_match fl (Ch c) x = same_char fl c x"
| "cls_match fl Dot x = (dotall fl \<or> x \<noteq> NL)"
| "cls_match fl Ws x = isspace x"
| "cls_match fl (OneOf cs) x = list_ex (\<lambda>c. same_char fl c x) cs"
| "cls_match fl (NotIn rs) x = (\<not> list_ex (\<lambda>r. in_range r x) rs)"

fun word_at :: "flags \<Rightarrow> string \<Rightarrow> string \<Rightarrow> bool" where
  "word_at fl [] s = True"
| "word_at fl (c # w) [] = False"
| "word_at fl (c # w) (x # s) = (same_char fl c x \<and> word_at fl w s)"

fun first_some :: "'a option list \<Rightarrow> 'a option" where
  "first_some [] = None"
| "first_some (None # xs) = first_some xs"
| "first_some (Some x # xs) = Some x"

text \<open>
  \<open>match_at fl s p i cp\<close> matches the pattern \<open>p\<close> in \<open>s\<close> from position \<open>i\<close> and gives the
  end position of the match with the group boundaries.
\<close>

fun match_at :: "flags \<Rightarrow> string \<Rightarrow> item list \<Rightarrow> nat \<Rightarrow> caps \<Rightarrow> (nat \<times> caps) option" where
  "match_at fl s [] i cp = Some (i, cp)"
| "match_at fl s (One c # p) i cp =
     (if i < length s \<and> cls_match fl c (s ! i) then match_at fl s p (Suc i) cp else None)"
| "match_at fl s (Rep c lo hi greedy # p) i cp =
     (let run = length (takeWhile (cls_match fl c) (drop i s));
          top = (case hi of None \<Rightarrow> run | Some h \<Rightarrow> min h run);
          counts = (if greedy then rev [lo..<Suc top] else [lo..<Suc top])
      in first_some (map (\<lambda>k. match_at fl s p (i + k) cp) counts))"
| "match_at fl s (Alt ws # p) i cp =
     first_some (map (\<lambda>w. if word_at fl w (drop i s)
                           then match_at fl s p (i + length w) cp else None) ws)"
| "match_at fl s (Bol # p) i cp =
     (if i = 0 \<or> (multiline fl \<and> i \<le> length s \<and> s ! (i - 1) = NL)
      then match_at fl s p i cp else None)"
| "match_at fl s (Eol # p) i cp =
     (if i = length s \<or> (i < length s \<and> s ! i = NL \<and> (multiline fl \<or> Suc i = length s))
      then match_at fl s p i cp else None)"
| "match_at fl s (Save k # p) i cp = match_at fl s p i ((k, i) # cp)"

text \<open>A match: where it starts, where it ends, the group boundaries.\<close>

type_synonym rmatch = "nat \<times> nat \<times> caps"

text \<open>\<^verbatim>\<open>pattern.search(s, pos)\<close>: the match at the least start position from \<open>pos\<close> on.\<close>

definition search_from :: "flags \<Rightarrow> item list \<Rightarrow> string \<Rightarrow> nat \<Rightarrow> rmatch option" where
  "search_from fl p s pos =
     first_some (map (\<lambda>i. map_option (\<lambda>(e, cp). (i, e, cp)) (match_at fl s p i []))
                     [pos..<Suc (length s)])"

definition re_search :: "flags \<Rightarrow> item list \<Rightarrow> string \<Rightarrow> rmatch option" where
  "re_search fl p s = search_from fl p s 0"

text \<open>\<^verbatim>\<open>m.group(n)\<close> for a group that took part in the match, \<^verbatim>\<open>m.group()\<close> for \<open>n = 0\<close>.\<close>

definition group :: "string \<Rightarrow> rmatch \<Rightarrow> nat \<Rightarrow> string" where
  "group s m n =
     (case m of (st, e, cp) \<Rightarrow>
        if n = 0 then slice s st e
        else (case (map_of cp (2 * n), map_of cp (2 * n + 1)) of
                (Some a, Some b) \<Rightarrow> slice s a b
              | _ \<Rightarrow> []))"

text \<open>The least number of characters a match of a pattern takes.\<close>

fun min_width :: "item list \<Rightarrow> nat" where
  "min_width [] = 0"
| "min_width (One c # p) = 1 + min_width p"
| "min_width (Rep c lo hi greedy # p) = lo + min_width p"
| "min_width (Alt [] # p) = min_width p"
| "min_width (Alt (w # ws) # p) = fold min (map length ws) (length w) + min_width p"
| "min_width (Bol # p) = min_width p"
| "min_width (Eol # p) = min_width p"
| "min_width (Save k # p) = min_width p"

text \<open>
  \<^verbatim>\<open>pattern.finditer(s)\<close>: the matches from left to right, none overlapping another.  The
  start positions are tried in turn; those before \<open>pos\<close>, where the last match ended, are
  passed over.  After an empty match the scan goes on one character further; every
  pattern of the validator has a least width above zero, so none of its matches is empty
  (\<open>match_at_min_width\<close> and \<open>patterns_min_width\<close> below).
\<close>

fun scan_matches :: "flags \<Rightarrow> item list \<Rightarrow> string \<Rightarrow> nat list \<Rightarrow> nat \<Rightarrow> rmatch list" where
  "scan_matches fl p s [] pos = []"
| "scan_matches fl p s (i # starts) pos =
     (if i < pos then scan_matches fl p s starts pos
      else (case match_at fl s p i [] of
              None \<Rightarrow> scan_matches fl p s starts pos
            | Some (e, cp) \<Rightarrow>
                (i, e, cp) # scan_matches fl p s starts (if e = i then Suc e else e)))"

definition finditer :: "flags \<Rightarrow> item list \<Rightarrow> string \<Rightarrow> rmatch list" where
  "finditer fl p s = scan_matches fl p s [0..<Suc (length s)] 0"

text \<open>\<^verbatim>\<open>re.sub(pattern, repl, s)\<close> where \<open>repl\<close> is a function of the match\<close>

fun sub_pieces :: "string \<Rightarrow> (rmatch \<Rightarrow> string) \<Rightarrow> nat \<Rightarrow> rmatch list \<Rightarrow> string" where
  "sub_pieces s repl pos [] = drop pos s"
| "sub_pieces s repl pos ((st, e, cp) # ms) =
     slice s pos st @ repl (st, e, cp) @ sub_pieces s repl e ms"

definition re_sub :: "flags \<Rightarrow> item list \<Rightarrow> (rmatch \<Rightarrow> string) \<Rightarrow> string \<Rightarrow> string" where
  "re_sub fl p repl s = sub_pieces s repl 0 (finditer fl p s)"

text \<open>\<^verbatim>\<open>re.split(pattern, s)\<close> for a pattern without groups\<close>

fun split_pieces :: "string \<Rightarrow> nat \<Rightarrow> rmatch list \<Rightarrow> string list" where
  "split_pieces s pos [] = [drop pos s]"
| "split_pieces s pos ((st, e, cp) # ms) = slice s pos st # split_pieces s e ms"

definition re_split :: "flags \<Rightarrow> item list \<Rightarrow> string \<Rightarrow> string list" where
  "re_split fl p s = split_pieces s 0 (finditer fl p s)"

subsection \<open>The patterns\<close>

abbreviation lit :: "string \<Rightarrow> item" where
  "lit w \<equiv> Alt [w]"

abbreviation ws_star :: item where
  "ws_star \<equiv> Rep Ws 0 None True"

text \<open>\<^verbatim>\<open><!--\s*PageHeader\s*=\s*["\'](.*?)["\']\s*-->\<close>\<close>

definition pat_pageheader :: "item list" where
  "pat_pageheader =
     [lit ''<!--'', ws_star, lit ''PageHeader'', ws_star, lit ''='', ws_star,
      One (OneOf [CHR 0x22, CHR 0x27]), Save 2, Rep Dot 0 None False, Save 3,
      One (OneOf [CHR 0x22, CHR 0x27]), ws_star, lit ''-->'']"

text \<open>\<^verbatim>\<open><!--.*?-->\<close>\<close>

definition pat_comment :: "item list" where
  "pat_comment = [lit ''<!--'', Rep Dot 0 None False, lit ''-->'']"

text \<open>\<^verbatim>\<open><figure.*?>.*?</figure>\<close>\<close>

definition pat_figure :: "item list" where
  "pat_figure =
     [lit ''<figure'', Rep Dot 0 None False, lit ''>'', Rep Dot 0 None False, lit ''</figure>'']"

text \<open>\<^verbatim>\<open>^\s*(Logo|Footer|Confidential)\s*$\<close>\<close>

definition pat_boilerplate :: "item list" where
  "pat_boilerplate =
     [Bol, ws_star, Save 2, Alt [''Logo'', ''Footer'', ''Confidential''], Save 3, ws_star, Eol]"

text \<open>\<^verbatim>\<open>^(#{1,6})\s*(.+?)\s*$\<close>\<close>

definition pat_heading :: "item list" where
  "pat_heading =
     [Bol, Save 2, Rep (Ch (CHR ''#'')) 1 (Some 6) True, Save 3, ws_star,
      Save 4, Rep Dot 1 None False, Save 5, ws_star, Eol]"

text \<open>\<^verbatim>\<open>\n\n+\<close>\<close>

definition pat_blank_line :: "item list" where
  "pat_blank_line = [One (Ch NL), Rep (Ch NL) 1 None True]"

text \<open>\<^verbatim>\<open>^#+\s*\<close>\<close>

definition pat_hashes :: "item list" where
  "pat_hashes = [Bol, Rep (Ch (CHR ''#'')) 1 None True, ws_star]"

text \<open>\<^verbatim>\<open>attachment\s*1[^a-zA-Z0-9]*service\s*description\<close>\<close>

definition pat_marker :: "item list" where
  "pat_marker =
     [lit ''attachment'', ws_star, lit ''1'',
      Rep (NotIn [(CHR ''a'', CHR ''z''), (CHR ''A'', CHR ''Z''), (CHR ''0'', CHR ''9'')])
          0 None True,
      lit ''service'', ws_star, lit ''description'']"

text \<open>\<^verbatim>\<open>\{.*\}\<close>\<close>

definition pat_json :: "item list" where
  "pat_json = [lit ''{'', Rep Dot 0 None True, lit ''}'']"

section \<open>Text cleaning\<close>

text \<open>The Python values a caller can hand to the cleaner, and those \<^verbatim>\<open>json.loads\<close> returns.\<close>

datatype pyval =
    PyNone
  | PyBool bool
  | PyInt int
  | PyFloat int int               \<comment> \<open>mantissa and binary exponent\<close>
  | PyStr string
  | PyBytes string
  | PyList "pyval list"
  | PyDict "(pyval \<times> pyval) list"

text \<open>
  \<^verbatim>\<open>clean_text_preserve_headings\<close>: a page header comment becomes its text on a line of
  its own, the other comments and the figures go, and so do the lines that hold nothing
  but \<^verbatim>\<open>Logo\<close>, \<^verbatim>\<open>Footer\<close> or \<^verbatim>\<open>Confidential\<close>.
\<close>

definition replace_pageheader :: "string \<Rightarrow> rmatch \<Rightarrow> string" where
  "replace_pageheader s m = [NL] @ group s m 1 @ [NL]"

fun isinstance_str :: "pyval \<Rightarrow> bool" where
  "isinstance_str (PyStr t) = True"
| "isinstance_str _ = False"

fun str_of :: "pyval \<Rightarrow> string" where
  "str_of (PyStr t) = t"
| "str_of _ = []"

definition clean_text_preserve_headings :: "pyval \<Rightarrow> string" where
  "clean_text_preserve_headings v =
     (if \<not> isinstance_str v then []
      else
        (let text = str_of v;
             text1 = re_sub no_flags pat_pageheader (replace_pageheader text) text;
             text2 = re_sub flag_S pat_comment (\<lambda>_. []) text1;
             text3 = re_sub flag_SI pat_figure (\<lambda>_. []) text2;
             text4 = re_sub flag_MI pat_boilerplate (\<lambda>_. []) text3
         in strip text4))"

section \<open>Heading segmentation\<close>

text \<open>
  The loop of \<^verbatim>\<open>_extract_sections_from_text\<close> over the heading matches: the title is
  group 2 of the heading, stripped; the content runs from the end of the heading to the
  start of the next heading, or to the end of the text, and is stripped.
\<close>

fun sections_of :: "string \<Rightarrow> rmatch list \<Rightarrow> (string \<times> string) list" where
  "sections_of clean_text [] = []"
| "sections_of clean_text (h # headings) =
     (let title = strip (group clean_text h 2);
          start = fst (snd h);
          stop = (case headings of [] \<Rightarrow> length clean_text | h' # _ \<Rightarrow> fst h');
          content = strip (slice clean_text start stop)
      in (title, content) # sections_of clean_text headings)"

definition extract_sections_from_text :: "pyval \<Rightarrow> (string \<times> string) list" where
  "extract_sections_from_text md_text =
     (let clean_text = clean_text_preserve_headings md_text;
          headings = finditer flag_M pat_heading clean_text
      in sections_of clean_text headings)"

text \<open>
  The reference text \<^verbatim>\<open>FIELDGLASS_REF_MD\<close> is read from a file when the class is
  created; it is a parameter here.
\<close>

definition extract_reference_sections :: "string \<Rightarrow> (string \<times> string) list" where
  "extract_reference_sections FIELDGLASS_REF_MD =
     extract_sections_from_text (PyStr FIELDGLASS_REF_MD)"

section \<open>Alignment of the contract with the reference headings\<close>

text \<open>\<^verbatim>\<open>[p.strip() for p in re.split(r'\n\n+', contract_text) if p.strip()]\<close>\<close>

definition paragraphs_of :: "string \<Rightarrow> string list" where
  "paragraphs_of contract_text =
     map strip (filter (\<lambda>p. strip p \<noteq> []) (re_split no_flags pat_blank_line contract_text))"

text \<open>\<^verbatim>\<open>re.sub(r'^#+\s*', '', paragraph).strip().lower()\<close>\<close>

definition p_clean :: "string \<Rightarrow> string" where
  "p_clean paragraph = lower (strip (re_sub no_flags pat_hashes (\<lambda>_. []) paragraph))"

text \<open>
  The inner loops \<^verbatim>\<open>for j in range(start, num_paragraphs)\<close>: the first paragraph from
  \<open>start\<close> on whose cleaned text is the lower-case heading.
\<close>

definition find_heading :: "string list \<Rightarrow> string \<Rightarrow> nat \<Rightarrow> nat option" where
  "find_heading paragraphs heading_lower start =
     List.find (\<lambda>j. p_clean (paragraphs ! j) = heading_lower) [start..<length paragraphs]"

text \<open>
  The loop \<^verbatim>\<open>for next_heading in ref_headings[i+1:]\<close>: the position of the first of the
  later headings that is found behind \<open>found_idx\<close>, or the number of paragraphs.
\<close>

fun find_end :: "string list \<Rightarrow> nat \<Rightarrow> string list \<Rightarrow> nat" where
  "find_end paragraphs found_idx [] = length paragraphs"
| "find_end paragraphs found_idx (next_heading # later) =
     (case find_heading paragraphs (lower next_heading) (found_idx + 1) of
        Some j \<Rightarrow> j
      | None \<Rightarrow> find_end paragraphs found_idx later)"

text \<open>
  What one round of the main loop of \<^verbatim>\<open>extract_contract_sections\<close> finds for its
  heading: nothing, or \<open>found_idx\<close> and \<open>end_idx\<close>.
\<close>

datatype span = Unmatched | Matched nat nat

fun section_text :: "string list \<Rightarrow> span \<Rightarrow> string" where
  "section_text paragraphs Unmatched = []"
| "section_text paragraphs (Matched found_idx end_idx) =
     strip (join [NL, NL] (slice paragraphs (found_idx + 1) end_idx))"

text \<open>
  The main loop, from the cursor \<open>start_idx\<close> on: the rounds in reference order, each
  with its heading and what it found.
\<close>

fun align :: "string list \<Rightarrow> string list \<Rightarrow> nat \<Rightarrow> (string \<times> span) list" where
  "align paragraphs [] start_idx = []"
| "align paragraphs (heading # later) start_idx =
     (case find_heading paragraphs (lower heading) start_idx of
        None \<Rightarrow> (heading, Unmatched) # align paragraphs later start_idx
      | Some found_idx \<Rightarrow>
          (let end_idx = find_end paragraphs found_idx later
           in (heading, Matched found_idx end_idx) # align paragraphs later end_idx))"

text \<open>
  \<^verbatim>\<open>aligned_sections\<close> is a Python dictionary: an association list in insertion order,
  where storing under a key that is present replaces the value in place.
\<close>

definition store_section ::
  "string list \<Rightarrow> string \<times> span \<Rightarrow> (string \<times> string) list \<Rightarrow> (string \<times> string) list" where
  "store_section paragraphs r aligned_sections =
     AList.update (fst r) (section_text paragraphs (snd r)) aligned_sections"

definition extract_contract_sections :: "pyval \<Rightarrow> string list \<Rightarrow> (string \<times> string) list" where
  "extract_contract_sections contract_text ref_headings =
     (let paragraphs = paragraphs_of (clean_text_preserve_headings contract_text)
      in fold (store_section paragraphs) (align paragraphs ref_headings 0) [])"

section \<open>Comparison of one section by the oracle\<close>

datatype error =
    TransportError
  | TypeError
  | AttributeError
  | JSONDecodeError
  | RecursionError
  | ValueError

text \<open>
  The chat client is a parameter: from its state and the messages of a request it gives
  \<^verbatim>\<open>response.choices[0].message.content\<close>, a text or \<^verbatim>\<open>None\<close>, or raises, and its next
  state.  The model name, the temperature and the token limit of the request are fixed
  per validator and belong to the client here.  \<^verbatim>\<open>json.loads\<close> is a parameter too: the
  Python value of a JSON text, or the exception it raises.  That is
  \<^verbatim>\<open>JSONDecodeError\<close> for a text that is not JSON, but not always: on arrays nested
  deeper than the interpreter's recursion limit it is \<^verbatim>\<open>RecursionError\<close>, on an integer
  of more digits than the conversion limit a plain \<^verbatim>\<open>ValueError\<close>.
\<close>

type_synonym 'o client =
  "'o \<Rightarrow> (string \<times> string) list \<Rightarrow> (error + string option) \<times> 'o"

type_synonym loads = "string \<Rightarrow> error + pyval"

definition prompt_of :: "string \<Rightarrow> string \<Rightarrow> string \<Rightarrow> string" where
  \<open>prompt_of ref_heading ref_excerpt con_excerpt =
     ''\<newline>You are a contract comparison assistant.\<newline>\<newline>'' @
     ''Compare the meaning of the following two sections:\<newline>\<newline>'' @
     ''Reference heading: '' @ ref_heading @ ''\<newline>'' @
     ''Reference text:\<newline>"""'' @ ref_excerpt @ ''""" \<newline>\<newline>'' @
     ''Contract text:\<newline>"""'' @ con_excerpt @ ''""" \<newline>\<newline>'' @
     ''Instructions:\<newline>'' @
     ''- Ignore formatting differences, punctuation, spacing, and trivial words like "Internal", '' @
     [CHR 0x27] @ ''Intetteahal'' @ [CHR 0x27] @ '',"Inteteahal", "Draft", "Confidential".\<newline>'' @
     ''- Only detect meaningful semantic differences.\<newline>'' @
     ''- Mention Contract text as contract document and reference text as FieldGlass document\<newline>'' @
     ''- Return strictly JSON:\<newline>\<newline>'' @
     ''{\<newline>  "section": "'' @ ref_heading @ ''",\<newline>'' @
     ''  "status": "Match" or "Modified",\<newline>'' @
     ''  "difference_summary": "short summary of the difference"\<newline>}\<newline>''\<close>

definition fallback_verdict :: "string \<Rightarrow> string \<Rightarrow> pyval" where
  "fallback_verdict section_label content =
     PyDict [(PyStr ''section'', PyStr section_label),
             (PyStr ''status'', PyStr ''Modified''),
             (PyStr ''difference_summary'', PyStr (take 400 (replace_char NL '' '' content)))]"

text \<open>The messages of the request for one section, with both texts cut to 3000 characters.\<close>

definition messages_of :: "string \<Rightarrow> string \<Rightarrow> string \<Rightarrow> (string \<times> string) list" where
  "messages_of ref_heading ref_text con_text =
     (let ref_excerpt = take 3000 (strip ref_text);
          con_excerpt = take 3000 (strip con_text);
          prompt = prompt_of ref_heading ref_excerpt con_excerpt
      in [(''system'', ''You are a precise and helpful contract comparison assistant.''),
          (''user'', prompt)])"

text \<open>
  The \<^verbatim>\<open>try\<close> block holds the search for the braces and the decoding, and its only
  handler is \<^verbatim>\<open>except json.JSONDecodeError\<close>: every other exception leaves the
  function, the \<^verbatim>\<open>TypeError\<close> of \<^verbatim>\<open>re.search\<close> on a content that is \<^verbatim>\<open>None\<close> and
  whatever else \<^verbatim>\<open>json.loads\<close> raises.
\<close>

definition compare_section_with_gpt ::
  "'o client \<Rightarrow> loads \<Rightarrow> 'o \<Rightarrow> string \<Rightarrow> string \<Rightarrow> string \<Rightarrow> (error + pyval) \<times> 'o" where
  "compare_section_with_gpt client json_loads st ref_heading ref_text con_text =
     (let section_label = ref_heading
      in case client st (messages_of ref_heading ref_text con_text) of
           (Inl e, st') \<Rightarrow> (Inl e, st')
         | (Inr None, st') \<Rightarrow> (Inl TypeError, st')
         | (Inr (Some content), st') \<Rightarrow>
             (case re_search flag_S pat_json content of
                Some json_text \<Rightarrow>
                  (case json_loads (group content json_text 0) of
                     Inr result_json \<Rightarrow> (Inr result_json, st')
                   | Inl e \<Rightarrow>
                       if e = JSONDecodeError
                       then (Inr (fallback_verdict section_label content), st')
                       else (Inl e, st'))
              | None \<Rightarrow> (Inr (fallback_verdict section_label content), st')))"

section \<open>The validation run\<close>

record report =
  validation_status :: string
  modified_sections :: "pyval list"

text \<open>\<^verbatim>\<open>parsed.get(key)\<close>: only a dictionary has the method.\<close>

fun py_get :: "pyval \<Rightarrow> string \<Rightarrow> error + pyval" where
  "py_get (PyDict kvs) key =
     Inr (case map_of kvs (PyStr key) of Some v \<Rightarrow> v | None \<Rightarrow> PyNone)"
| "py_get _ key = Inl AttributeError"

text \<open>\<^verbatim>\<open>contract_sections.get(heading, "")\<close>\<close>

definition section_get :: "(string \<times> string) list \<Rightarrow> string \<Rightarrow> string" where
  "section_get contract_sections heading =
     (case map_of contract_sections heading of Some t \<Rightarrow> t | None \<Rightarrow> [])"

text \<open>
  The loop of \<^verbatim>\<open>validate_service_description\<close> over the reference sections.  Beside the
  state of the client and \<^verbatim>\<open>modified_results\<close> it keeps the list of the comparisons
  asked of the oracle, each with its heading, reference text and contract text.
\<close>

type_synonym call = "string \<times> string \<times> string"

fun compare_sections ::
  "'o client \<Rightarrow> loads \<Rightarrow> (string \<times> string) list \<Rightarrow> (string \<times> string) list \<Rightarrow>
   'o \<Rightarrow> call list \<Rightarrow> pyval list \<Rightarrow> (error + pyval list) \<times> 'o \<times> call list" where
  "compare_sections client json_loads contract_sections [] st calls modified_results =
     (Inr modified_results, st, calls)"
| "compare_sections client json_loads contract_sections ((heading, ref_text) # later)
       st calls modified_results =
     (let con_text = section_get contract_sections heading
      in if strip con_text = [] then
           compare_sections client json_loads contract_sections later st calls modified_results
         else
           (case compare_section_with_gpt client json_loads st heading ref_text con_text of
              (Inl e, st') \<Rightarrow> (Inl e, st', calls @ [(heading, ref_text, con_text)])
            | (Inr parsed, st') \<Rightarrow>
                (case py_get parsed ''status'' of
                   Inl e \<Rightarrow> (Inl e, st', calls @ [(heading, ref_text, con_text)])
                 | Inr status \<Rightarrow>
                     compare_sections client json_loads contract_sections later st'
                       (calls @ [(heading, ref_text, con_text)])
                       (if status = PyStr ''Modified'' then modified_results @ [parsed]
                        else modified_results))))"

definition validate_service_description ::
  "'o client \<Rightarrow> loads \<Rightarrow> string \<Rightarrow> 'o \<Rightarrow> string \<Rightarrow> (error + report) \<times> 'o \<times> call list" where
  "validate_service_description client json_loads FIELDGLASS_REF_MD st contract_md_text =
     (if re_search flag_I pat_marker contract_md_text = None then
        (Inr \<lparr>validation_status = ''Missing'', modified_sections = []\<rparr>, st, [])
      else
        (let ref_sections = extract_reference_sections FIELDGLASS_REF_MD;
             ref_headings = map fst ref_sections;
             contract_sections = extract_contract_sections (PyStr contract_md_text) ref_headings
         in case compare_sections client json_loads contract_sections ref_sections st [] [] of
              (Inl e, st', calls) \<Rightarrow> (Inl e, st', calls)
            | (Inr modified_results, st', calls) \<Rightarrow>
                (Inr \<lparr>validation_status =
                         (if modified_results = [] then ''Correct'' else ''Mismatch''),
                       modified_sections = modified_results\<rparr>, st', calls)))"

section \<open>Spans of text and sample inputs\<close>

text \<open>
  The matches of a scan lie one behind the other: each starts at or after \<open>pos\<close>, where
  the one before it ended, and ends within the first \<open>n\<close> characters.
\<close>

fun chained :: "nat \<Rightarrow> nat \<Rightarrow> rmatch list \<Rightarrow> bool" where
  "chained n pos [] = True"
| "chained n pos ((st, e, cp) # ms) = (pos \<le> st \<and> st \<le> e \<and> e \<le> n \<and> chained n e ms)"

text \<open>
  The text behind each section, before anything is stripped from it: the heading as it
  was matched, and the characters from its end to the start of the next heading, or to
  the end of the text.
\<close>

fun heading_spans :: "string \<Rightarrow> rmatch list \<Rightarrow> (string \<times> string) list" where
  "heading_spans clean_text [] = []"
| "heading_spans clean_text (h # headings) =
     (let start = fst (snd h);
          stop = (case headings of [] \<Rightarrow> length clean_text | h' # _ \<Rightarrow> fst h')
      in (slice clean_text (fst h) start, slice clean_text start stop)
         # heading_spans clean_text headings)"

text \<open>A reference of three sections, and a contract that has two of them.\<close>

definition sample_reference :: string where
  "sample_reference =
     ''# Scope\<newline>scope text\<newline>## Term\<newline>12 months\<newline># Fees\<newline>fee text''"

definition sample_contract :: string where
  "sample_contract =
     ''Attachment 1: Service Description\<newline>\<newline>Scope\<newline>\<newline>my scope\<newline>\<newline>## TERM\<newline>\<newline>Twelve months''"

text \<open>
  A client that counts its requests; it answers the first with a JSON object behind a
  word of introduction, and every later one with plain text.  A decoder that knows this
  one object and raises \<^verbatim>\<open>JSONDecodeError\<close> on every other text.
\<close>

definition sample_object :: string where
  \<open>sample_object =
     ''{"section": "Scope", "status": "modified", "difference_summary": "wording"}''\<close>

definition sample_client :: "nat client" where
  "sample_client n msgs =
     (Inr (Some (if n = 0 then ''Result: '' @ sample_object else ''no json'')), Suc n)"

definition sample_loads :: loads where
  "sample_loads s =
     (if s = sample_object
      then Inr (PyDict [(PyStr ''section'', PyStr ''Scope''),
                        (PyStr ''status'', PyStr ''modified''),
                        (PyStr ''difference_summary'', PyStr ''wording'')])
      else Inl JSONDecodeError)"

text \<open>
  A client whose answer is two lines of plain text, one whose answer has braces around
  a word, and a decoder that raises \<^verbatim>\<open>JSONDecodeError\<close> on every text.
\<close>

definition two_line_client :: "unit client" where
  "two_line_client u msgs = (Inr (Some ''a\<newline>b''), u)"

definition braces_client :: "unit client" where
  "braces_client u msgs = (Inr (Some ''I cannot {compare} these''), u)"

definition no_json :: loads where
  "no_json s = Inl JSONDecodeError"

text \<open>
  An answer that opens an object and then a thousand arrays, and a decoder that does
  on it what \<^verbatim>\<open>json.loads\<close> does: it raises \<^verbatim>\<open>RecursionError\<close>.
\<close>

definition deep_answer :: string where
  \<open>deep_answer = ''{"a":'' @ replicate 1000 (CHR ''['') @ ''}''\<close>

definition deep_client :: "unit client" where
  "deep_client u msgs = (Inr (Some deep_answer), u)"

definition deep_loads :: loads where
  "deep_loads s = (if s = deep_answer then Inl RecursionError else Inl JSONDecodeError)"

section \<open>Facts about matching\<close>

lemma first_some_SomeD:
  "first_some xs = Some y \<Longrightarrow> Some y \<in> set xs"
  by (induction xs rule: first_some.induct) auto

lemma word_at_length:
  "word_at fl w s \<Longrightarrow> length w \<le> length s"
  by (induction fl w s rule: word_at.induct) auto

lemma match_at_bounds:
  "match_at fl s p i cp = Some (e, cp') \<Longrightarrow> i \<le> length s \<Longrightarrow> i \<le> e \<and> e \<le> length s"
proof (induction p arbitrary: i cp)
  case Nil
  then show ?case by simp
next
  case (Cons a p)
  show ?case
  proof (cases a)
    case (One c)
    with Cons.prems have "match_at fl s p (Suc i) cp = Some (e, cp')" and "i < length s"
      by (auto split: if_splits)
    with Cons.IH [of "Suc i" cp] show ?thesis by simp
  next
    case (Rep c lo hi greedy)
    let ?run = "length (takeWhile (cls_match fl c) (drop i s))"
    let ?top = "case hi of None \<Rightarrow> ?run | Some h \<Rightarrow> min h ?run"
    have run: "?run \<le> length s - i"
      using length_takeWhile_le [of "cls_match fl c" "drop i s"] by simp
    have top: "?top \<le> ?run"
      by (simp split: option.splits)
    from Cons.prems(1) Rep
    have "first_some (map (\<lambda>k. match_at fl s p (i + k) cp)
            (if greedy then rev [lo..<Suc ?top] else [lo..<Suc ?top])) = Some (e, cp')"
      by (simp add: Let_def del: upt_Suc)
    from first_some_SomeD [OF this]
    have "Some (e, cp') \<in> (\<lambda>k. match_at fl s p (i + k) cp) ` {lo..<Suc ?top}"
      by (auto simp del: upt_Suc split: if_splits)
    then obtain k where kk: "k \<in> {lo..<Suc ?top}"
      and mm: "Some (e, cp') = match_at fl s p (i + k) cp"
      by blast
    from kk have k: "k \<le> ?top" by simp
    from mm have m: "match_at fl s p (i + k) cp = Some (e, cp')" by simp
    from k top run Cons.prems(2) have "i + k \<le> length s" by simp
    with Cons.IH [OF m] show ?thesis by simp
  next
    case (Alt ws)
    from Cons.prems(1) Alt
    obtain w where w: "word_at fl w (drop i s)"
      and m: "match_at fl s p (i + length w) cp = Some (e, cp')"
      by (auto dest!: first_some_SomeD split: if_splits)
    from word_at_length [OF w] Cons.prems(2) have "i + length w \<le> length s" by simp
    with Cons.IH [OF m] show ?thesis by simp
  next
    case Bol
    with Cons.prems have "match_at fl s p i cp = Some (e, cp')"
      by (auto split: if_splits)
    with Cons.IH [of i cp] Cons.prems(2) show ?thesis by simp
  next
    case Eol
    with Cons.prems have "match_at fl s p i cp = Some (e, cp')"
      by (auto split: if_splits)
    with Cons.IH [of i cp] Cons.prems(2) show ?thesis by simp
  next
    case (Save k)
    with Cons.prems have "match_at fl s p i ((k, i) # cp) = Some (e, cp')"
      by simp
    with Cons.IH [of i "(k, i) # cp"] Cons.prems(2) show ?thesis by simp
  qed
qed

lemma fold_min_le_init:
  "fold min xs (a::nat) \<le> a"
proof (induction xs arbitrary: a)
  case Nil
  then show ?case by simp
next
  case (Cons x xs)
  have "fold min xs (min x a) \<le> min x a" by (rule Cons.IH)
  then show ?case by simp
qed

lemma fold_min_le_mem:
  "x \<in> set xs \<Longrightarrow> fold min xs (a::nat) \<le> x"
proof (induction xs arbitrary: a)
  case Nil
  then show ?case by simp
next
  case (Cons y ys)
  show ?case
  proof (cases "x = y")
    case True
    have "fold min ys (min y a) \<le> min y a" by (rule fold_min_le_init)
    with True show ?thesis by simp
  next
    case False
    with Cons.prems have "x \<in> set ys" by simp
    from Cons.IH [OF this] show ?thesis by simp
  qed
qed

lemma match_at_min_width:
  "match_at fl s p i cp = Some (e, cp') \<Longrightarrow> i + min_width p \<le> e"
proof (induction p arbitrary: i cp)
  case Nil
  then show ?case by simp
next
  case (Cons a p)
  show ?case
  proof (cases a)
    case (One c)
    with Cons.prems have "match_at fl s p (Suc i) cp = Some (e, cp')"
      by (auto split: if_splits)
    with Cons.IH [of "Suc i" cp] One show ?thesis by simp
  next
    case (Rep c lo hi greedy)
    let ?run = "length (takeWhile (cls_match fl c) (drop i s))"
    let ?top = "case hi of None \<Rightarrow> ?run | Some h \<Rightarrow> min h ?run"
    from Cons.prems(1) Rep
    have "first_some (map (\<lambda>k. match_at fl s p (i + k) cp)
            (if greedy then rev [lo..<Suc ?top] else [lo..<Suc ?top])) = Some (e, cp')"
      by (simp add: Let_def del: upt_Suc)
    from first_some_SomeD [OF this]
    have "Some (e, cp') \<in> (\<lambda>k. match_at fl s p (i + k) cp) ` {lo..<Suc ?top}"
      by (auto simp del: upt_Suc split: if_splits)
    then obtain k where kk: "k \<in> {lo..<Suc ?top}"
      and mm: "Some (e, cp') = match_at fl s p (i + k) cp"
      by blast
    from mm have m: "match_at fl s p (i + k) cp = Some (e, cp')" by simp
    from kk have "lo \<le> k" by simp
    with Cons.IH [OF m] Rep show ?thesis by simp
  next
    case (Alt ws)
    from Cons.prems(1) Alt
    obtain w where w: "w \<in> set ws"
      and m: "match_at fl s p (i + length w) cp = Some (e, cp')"
      by (auto dest!: first_some_SomeD split: if_splits)
    from w obtain v vs where ws: "ws = v # vs" by (cases ws) auto
    with w have "fold min (map length vs) (length v) \<le> length w"
      using fold_min_le_init [of "map length vs" "length v"]
        fold_min_le_mem [of "length w" "map length vs" "length v"] by auto
    with Cons.IH [OF m] Alt ws show ?thesis by simp
  next
    case Bol
    with Cons.prems have "match_at fl s p i cp = Some (e, cp')"
      by (auto split: if_splits)
    with Cons.IH [of i cp] Bol show ?thesis by simp
  next
    case Eol
    with Cons.prems have "match_at fl s p i cp = Some (e, cp')"
      by (auto split: if_splits)
    with Cons.IH [of i cp] Eol show ?thesis by simp
  next
    case (Save k)
    with Cons.prems have "match_at fl s p i ((k, i) # cp) = Some (e, cp')"
      by simp
    with Cons.IH [of i "(k, i) # cp"] Save show ?thesis by simp
  qed
qed

lemma patterns_min_width:
  "0 < min_width pat_pageheader" "0 < min_width pat_comment" "0 < min_width pat_figure"
  "0 < min_width pat_boilerplate" "0 < min_width pat_heading" "0 < min_width pat_blank_line"
  "0 < min_width pat_hashes" "0 < min_width pat_marker" "0 < min_width pat_json"
  by (simp_all add: pat_pageheader_def pat_comment_def pat_figure_def pat_boilerplate_def
        pat_heading_def pat_blank_line_def pat_hashes_def pat_marker_def pat_json_def)

lemma search_from_Some:
  assumes "search_from fl p s pos = Some (st, e, cp)"
  shows "pos \<le> st \<and> st \<le> length s \<and> match_at fl s p st [] = Some (e, cp)"
proof -
  from assms have "Some (st, e, cp) \<in>
      set (map (\<lambda>i. map_option (\<lambda>(e, cp). (i, e, cp)) (match_at fl s p i []))
               [pos..<Suc (length s)])"
    unfolding search_from_def by (rule first_some_SomeD)
  then obtain i where "i \<in> set [pos..<Suc (length s)]"
    and m: "Some (st, e, cp) = map_option (\<lambda>(e, cp). (i, e, cp)) (match_at fl s p i [])"
    by (auto simp del: upt_Suc)
  then have i: "pos \<le> i" "i \<le> length s"
    by auto
  from m have "i = st \<and> match_at fl s p i [] = Some (e, cp)"
    by (cases "match_at fl s p i []") auto
  with i show ?thesis by blast
qed

lemma chained_mono:
  "chained n pos ms \<Longrightarrow> pos' \<le> pos \<Longrightarrow> chained n pos' ms"
  by (cases ms) auto

lemma scan_matches_chained:
  "\<forall>i\<in>set starts. i \<le> length s \<Longrightarrow> chained (length s) pos (scan_matches fl p s starts pos)"
proof (induction starts arbitrary: pos)
  case Nil
  then show ?case by simp
next
  case (Cons i starts)
  then have IH: "\<And>pos. chained (length s) pos (scan_matches fl p s starts pos)"
    and i: "i \<le> length s"
    by simp_all
  show ?case
  proof (cases "i < pos")
    case True
    then show ?thesis using IH by simp
  next
    case False
    show ?thesis
    proof (cases "match_at fl s p i []")
      case None
      then show ?thesis using False IH by simp
    next
      case (Some r)
      obtain e cp where r: "r = (e, cp)" by (cases r)
      from match_at_bounds [of fl s p i "[]" e cp] Some r i
      have b: "i \<le> e" "e \<le> length s" by simp_all
      have "chained (length s) e (scan_matches fl p s starts (if e = i then Suc e else e))"
        by (rule chained_mono [OF IH]) simp
      with Some r False b show ?thesis by simp
    qed
  qed
qed

lemma finditer_chained:
  "chained (length s) 0 (finditer fl p s)"
  unfolding finditer_def by (rule scan_matches_chained) auto

lemma slice_drop:
  "a \<le> b \<Longrightarrow> slice s a b @ drop b s = drop a s"
proof -
  assume "a \<le> b"
  then have "drop b s = drop (b - a) (drop a s)" by simp
  then show ?thesis unfolding slice_def by (simp only: append_take_drop_id)
qed

lemma heading_spans_tile:
  "chained (length s) pos ms \<Longrightarrow> ms \<noteq> [] \<Longrightarrow>
   concat (map (\<lambda>(h, b). h @ b) (heading_spans s ms)) = drop (fst (hd ms)) s"
proof (induction ms arbitrary: pos)
  case Nil
  then show ?case by simp
next
  case (Cons m ms)
  obtain st e cp where m: "m = (st, e, cp)" by (cases m)
  from Cons.prems m have b: "st \<le> e" "e \<le> length s" and ch: "chained (length s) e ms"
    by simp_all
  show ?case
  proof (cases ms)
    case Nil
    have "slice s e (length s) = drop e s" by (simp add: slice_def)
    with Nil m slice_drop [OF b(1), of s] show ?thesis by simp
  next
    case (Cons m' ms')
    obtain st' e' cp' where m': "m' = (st', e', cp')" by (cases m')
    from ch Cons m' have b': "e \<le> st'" by simp
    from Cons.IH [OF ch] Cons m'
    have "concat (map (\<lambda>(h, b). h @ b) (heading_spans s ms)) = drop st' s" by simp
    with Cons m m' slice_drop [OF b(1), of s] slice_drop [OF b', of s]
    show ?thesis by (simp add: Let_def)
  qed
qed

lemma sections_of_spans:
  "sections_of s ms =
     map (\<lambda>(m, h, b). (strip (group s m 2), strip b)) (zip ms (heading_spans s ms))"
  by (induction ms) (simp_all add: Let_def)

section \<open>Facts about the alignment\<close>

lemma find_heading_Some:
  "find_heading ps h start = Some f \<Longrightarrow> start \<le> f \<and> f < length ps \<and> p_clean (ps ! f) = h"
  unfolding find_heading_def by (auto simp: find_Some_iff)

lemma find_end_bounds:
  "f < length ps \<Longrightarrow> f < find_end ps f later \<and> find_end ps f later \<le> length ps"
proof (induction later)
  case Nil
  then show ?case by simp
next
  case (Cons h later)
  show ?case
  proof (cases "find_heading ps (lower h) (f + 1)")
    case None
    with Cons show ?thesis by simp
  next
    case (Some j)
    from find_heading_Some [OF Some] Some show ?thesis by simp
  qed
qed

lemma align_keys:
  "map fst (align ps hs start) = hs"
  by (induction hs arbitrary: start) (auto simp: Let_def split: option.splits)

lemma length_align:
  "length (align ps hs start) = length hs"
  using align_keys [of ps hs start] by (metis length_map)

lemma align_spans:
  "(h, Matched f e) \<in> set (align ps hs start) \<Longrightarrow>
   start \<le> f \<and> f < e \<and> e \<le> length ps \<and> p_clean (ps ! f) = lower h"
proof (induction hs arbitrary: start)
  case Nil
  then show ?case by simp
next
  case (Cons h' later)
  show ?case
  proof (cases "find_heading ps (lower h') start")
    case None
    with Cons.prems have "(h, Matched f e) \<in> set (align ps later start)" by simp
    from Cons.IH [OF this] show ?thesis .
  next
    case (Some f')
    from find_heading_Some [OF Some]
    have f': "start \<le> f'" "f' < length ps" "p_clean (ps ! f') = lower h'" by simp_all
    from find_end_bounds [OF f'(2), of later]
    have e': "f' < find_end ps f' later" "find_end ps f' later \<le> length ps" by simp_all
    from Cons.prems Some
    consider "h = h'" "f = f'" "e = find_end ps f' later"
      | "(h, Matched f e) \<in> set (align ps later (find_end ps f' later))"
      by (auto simp: Let_def)
    then show ?thesis
    proof cases
      case 1
      with f' e' show ?thesis by simp
    next
      case 2
      from Cons.IH [OF 2] f' e' show ?thesis by simp
    qed
  qed
qed

lemma align_unmatched:
  "(h, sp) \<in> set (align ps hs start) \<Longrightarrow> \<forall>p\<in>set ps. p_clean p \<noteq> lower h \<Longrightarrow> sp = Unmatched"
proof (cases sp)
  case Unmatched
  then show ?thesis by simp
next
  case (Matched f e)
  assume "(h, sp) \<in> set (align ps hs start)" and no: "\<forall>p\<in>set ps. p_clean p \<noteq> lower h"
  with Matched have "(h, Matched f e) \<in> set (align ps hs start)" by simp
  from align_spans [OF this] have "f < length ps" "p_clean (ps ! f) = lower h" by simp_all
  with no show ?thesis by (metis nth_mem)
qed

lemma align_order:
  "i < j \<Longrightarrow> j < length hs \<Longrightarrow>
   snd (align ps hs start ! i) = Matched f1 e1 \<Longrightarrow>
   snd (align ps hs start ! j) = Matched f2 e2 \<Longrightarrow> e1 \<le> f2"
proof (induction hs arbitrary: start i j)
  case Nil
  then show ?case by simp
next
  case (Cons h later)
  from Cons.prems(1) obtain j' where j: "j = Suc j'" by (cases j) auto
  with Cons.prems(2) have j': "j' < length later" by simp
  show ?case
  proof (cases "find_heading ps (lower h) start")
    case None
    then have al: "align ps (h # later) start = (h, Unmatched) # align ps later start"
      by simp
    show ?thesis
    proof (cases i)
      case 0
      with al Cons.prems(3) show ?thesis by simp
    next
      case (Suc i')
      with Cons.prems j al have "i' < j'"
        "snd (align ps later start ! i') = Matched f1 e1"
        "snd (align ps later start ! j') = Matched f2 e2"
        by simp_all
      from Cons.IH [OF this(1) j' this(2) this(3)] show ?thesis .
    qed
  next
    case (Some f)
    let ?e = "find_end ps f later"
    from Some have al: "align ps (h # later) start = (h, Matched f ?e) # align ps later ?e"
      by (simp add: Let_def)
    show ?thesis
    proof (cases i)
      case 0
      from Cons.prems(3) have "Matched f ?e = Matched f1 e1"
        unfolding 0 al by (simp only: nth_Cons_0 snd_conv)
      then have e1: "e1 = ?e" by blast
      from al j Cons.prems(4) have "snd (align ps later ?e ! j') = Matched f2 e2" by simp
      moreover from j' have "align ps later ?e ! j' \<in> set (align ps later ?e)"
        by (simp add: length_align)
      ultimately have "(fst (align ps later ?e ! j'), Matched f2 e2) \<in> set (align ps later ?e)"
        by (metis prod.collapse)
      from align_spans [OF this] e1 show ?thesis by simp
    next
      case (Suc i')
      with Cons.prems j al have "i' < j'"
        "snd (align ps later ?e ! i') = Matched f1 e1"
        "snd (align ps later ?e ! j') = Matched f2 e2"
        by simp_all
      from Cons.IH [OF this(1) j' this(2) this(3)] show ?thesis .
    qed
  qed
qed

lemma align_nth_spans:
  assumes "i < length hs" "snd (align ps hs start ! i) = Matched f e"
  shows "start \<le> f \<and> f < e \<and> e \<le> length ps \<and> p_clean (ps ! f) = lower (hs ! i)"
proof -
  let ?r = "align ps hs start ! i"
  from assms(1) have "?r \<in> set (align ps hs start)" by (simp add: length_align)
  moreover from assms(1) have "fst ?r = hs ! i"
    using align_keys [of ps hs start] by (metis length_align nth_map)
  ultimately have "(hs ! i, Matched f e) \<in> set (align ps hs start)"
    using assms(2) by (metis prod.collapse)
  from align_spans [OF this] show ?thesis .
qed

section \<open>Facts about the dictionary of aligned sections\<close>

lemma store_section_keys:
  "map fst (store_section ps r d) =
     (if fst r \<in> set (map fst d) then map fst d else map fst d @ [fst r])"
  unfolding store_section_def by (simp add: update_keys)

lemma fold_store_keys:
  "distinct (map fst rs) \<Longrightarrow> set (map fst rs) \<inter> set (map fst d) = {} \<Longrightarrow>
   map fst (fold (store_section ps) rs d) = map fst d @ map fst rs"
proof (induction rs arbitrary: d)
  case Nil
  then show ?case by simp
next
  case (Cons r rs)
  from Cons.prems have new: "fst r \<notin> set (map fst d)" by auto
  then have k: "map fst (store_section ps r d) = map fst d @ [fst r]"
    by (simp add: store_section_keys)
  from Cons.prems k have "set (map fst rs) \<inter> set (map fst (store_section ps r d)) = {}"
    by auto
  with Cons.IH [of "store_section ps r d"] Cons.prems(1) k show ?case by simp
qed

lemma map_of_store_section:
  "map_of (store_section ps r d) h =
     (if h = fst r then Some (section_text ps (snd r)) else map_of d h)"
  unfolding store_section_def by (simp add: update_conv')

lemma fold_store_other:
  "h \<notin> fst ` set rs \<Longrightarrow> map_of (fold (store_section ps) rs d) h = map_of d h"
  by (induction rs arbitrary: d) (auto simp: map_of_store_section)

lemma fold_store_same:
  "h \<in> fst ` set rs \<Longrightarrow> \<forall>sp. (h, sp) \<in> set rs \<longrightarrow> section_text ps sp = v \<Longrightarrow>
   map_of (fold (store_section ps) rs d) h = Some v"
proof (induction rs arbitrary: d)
  case Nil
  then show ?case by simp
next
  case (Cons r rs)
  show ?case
  proof (cases "h \<in> fst ` set rs")
    case True
    with Cons.IH [of "store_section ps r d"] Cons.prems(2) show ?thesis by simp
  next
    case False
    with Cons.prems(1) have h: "h = fst r" by simp
    with Cons.prems(2) have "section_text ps (snd r) = v" by (metis list.set_intros(1) prod.collapse)
    with False h show ?thesis by (simp add: fold_store_other map_of_store_section)
  qed
qed

lemma unmatched_heading_empty:
  assumes "\<forall>p\<in>set (paragraphs_of (clean_text_preserve_headings contract_text)). p_clean p \<noteq> lower h"
  shows "section_get (extract_contract_sections contract_text hs) h = []"
proof -
  let ?ps = "paragraphs_of (clean_text_preserve_headings contract_text)"
  let ?rs = "align ?ps hs 0"
  show ?thesis
  proof (cases "h \<in> fst ` set ?rs")
    case False
    then have "map_of (fold (store_section ?ps) ?rs []) h = None"
      by (simp add: fold_store_other)
    then show ?thesis by (simp add: section_get_def extract_contract_sections_def Let_def)
  next
    case True
    have "\<forall>sp. (h, sp) \<in> set ?rs \<longrightarrow> section_text ?ps sp = []"
      using align_unmatched [OF _ assms] by fastforce
    from fold_store_same [OF True this]
    show ?thesis by (simp add: section_get_def extract_contract_sections_def Let_def)
  qed
qed

lemma fold_store_entry:
  "map_of (fold (store_section ps) rs d) h = Some t \<Longrightarrow>
   map_of d h = Some t \<or> (\<exists>sp. (h, sp) \<in> set rs \<and> t = section_text ps sp)"
proof (induction rs arbitrary: d)
  case Nil
  then show ?case by simp
next
  case (Cons r rs)
  from Cons.IH [of "store_section ps r d"] Cons.prems
  consider "map_of (store_section ps r d) h = Some t"
    | sp where "(h, sp) \<in> set rs" "t = section_text ps sp"
    by auto
  then show ?case
  proof cases
    case 1
    show ?thesis
    proof (cases "h = fst r")
      case True
      with 1 have "t = section_text ps (snd r)" by (simp add: map_of_store_section)
      moreover from True have "(h, snd r) \<in> set (r # rs)" by simp
      ultimately show ?thesis by blast
    next
      case False
      with 1 show ?thesis by (simp add: map_of_store_section)
    qed
  next
    case 2
    then show ?thesis by auto
  qed
qed

text \<open>Every entry of the dictionary is the heading and the body of one round.\<close>

lemma aligned_entry_from_round:
  assumes "map_of (extract_contract_sections contract_text ref_headings) h = Some t"
  shows "\<exists>sp. (h, sp) \<in> set (align (paragraphs_of (clean_text_preserve_headings contract_text))
                               ref_headings 0) \<and>
              t = section_text (paragraphs_of (clean_text_preserve_headings contract_text)) sp"
  using fold_store_entry [of "paragraphs_of (clean_text_preserve_headings contract_text)"
      "align (paragraphs_of (clean_text_preserve_headings contract_text)) ref_headings 0"
      "[]" h t] assms
  by (simp add: extract_contract_sections_def Let_def)

section \<open>Facts about the comparison loop\<close>

lemma compare_sections_skips_blank:
  "compare_sections client json_loads cs secs st calls acc =
   compare_sections client json_loads cs
     (filter (\<lambda>(h, r). strip (section_get cs h) \<noteq> []) secs) st calls acc"
proof (induction secs arbitrary: st calls acc)
  case Nil
  then show ?case by simp
next
  case (Cons s secs)
  obtain h r where s: "s = (h, r)" by (cases s)
  show ?case
  proof (cases "strip (section_get cs h) = []")
    case True
    with s Cons.IH show ?thesis by simp
  next
    case False
    with s Cons.IH show ?thesis
      by (simp add: Let_def split: prod.splits sum.splits)
  qed
qed

lemma compare_sections_calls:
  "compare_sections client json_loads cs secs st calls acc = (res, st', calls') \<Longrightarrow>
   \<exists>new. calls' = calls @ new \<and>
         (\<forall>(h, r, c)\<in>set new. c = section_get cs h \<and> strip c \<noteq> [] \<and> (h, r) \<in> set secs)"
proof (induction secs arbitrary: st calls acc)
  case Nil
  then show ?case by simp
next
  case (Cons s secs)
  obtain h r where s: "s = (h, r)" by (cases s)
  let ?c = "section_get cs h"
  show ?case
  proof (cases "strip ?c = []")
    case True
    with Cons.prems s
    have "compare_sections client json_loads cs secs st calls acc = (res, st', calls')"
      by simp
    from Cons.IH [OF this] show ?thesis by fastforce
  next
    case False
    obtain out st1 where cmp:
      "compare_section_with_gpt client json_loads st h r ?c = (out, st1)"
      by (cases "compare_section_with_gpt client json_loads st h r ?c")
    show ?thesis
    proof (cases out)
      case (Inl e)
      with Cons.prems s False cmp have "calls' = calls @ [(h, r, ?c)]"
        by simp
      with False s show ?thesis by simp
    next
      case (Inr parsed)
      show ?thesis
      proof (cases "py_get parsed ''status''")
        case (Inl e)
        with Cons.prems s False cmp Inr have "calls' = calls @ [(h, r, ?c)]"
          by simp
        with False s show ?thesis by simp
      next
        case (Inr status)
        with Cons.prems s False cmp \<open>out = Inr parsed\<close>
        have "compare_sections client json_loads cs secs st1 (calls @ [(h, r, ?c)])
                (if status = PyStr ''Modified'' then acc @ [parsed] else acc) =
              (res, st', calls')"
          by simp
        from Cons.IH [OF this] obtain new where
          new: "calls' = (calls @ [(h, r, ?c)]) @ new"
            "\<forall>(h, r, c)\<in>set new. c = section_get cs h \<and> strip c \<noteq> [] \<and> (h, r) \<in> set secs"
          by blast
        have "calls' = calls @ ((h, r, ?c) # new)" using new(1) by simp
        moreover have "\<forall>(h', r', c)\<in>set ((h, r, ?c) # new).
            c = section_get cs h' \<and> strip c \<noteq> [] \<and> (h', r') \<in> set (s # secs)"
          using new(2) False s by auto
        ultimately show ?thesis by blast
      qed
    qed
  qed
qed

section \<open>Facts about the span of the JSON pattern\<close>

lemma word_at_single:
  "word_at fl [c] (drop i s) \<longleftrightarrow> i < length s \<and> same_char fl c (s ! i)"
proof (cases "i < length s")
  case True
  then have "drop i s = s ! i # drop (Suc i) s" by (simp add: Cons_nth_drop_Suc)
  with True show ?thesis by simp
next
  case False
  then show ?thesis by simp
qed

lemma same_char_flag_S:
  "same_char flag_S c x \<longleftrightarrow> x = c"
  by (simp add: same_char_def flag_S_def no_flags_def)

lemma first_some_single:
  "first_some [x] = x"
  by (cases x) simp_all

lemma match_at_lit:
  "match_at fl s (Alt [w] # p) i cp =
     (if word_at fl w (drop i s) then match_at fl s p (i + length w) cp else None)"
  by (simp add: first_some_single)

lemma match_at_Rep_SomeD:
  assumes "match_at fl s (Rep c lo hi greedy # p) i cp = Some r"
  shows "\<exists>k. match_at fl s p (i + k) cp = Some r"
proof -
  let ?run = "length (takeWhile (cls_match fl c) (drop i s))"
  let ?top = "case hi of None \<Rightarrow> ?run | Some h \<Rightarrow> min h ?run"
  from assms
  have "first_some (map (\<lambda>k. match_at fl s p (i + k) cp)
          (if greedy then rev [lo..<Suc ?top] else [lo..<Suc ?top])) = Some r"
    by (simp add: Let_def del: upt_Suc)
  from first_some_SomeD [OF this]
  have "Some r \<in> (\<lambda>k. match_at fl s p (i + k) cp) ` {lo..<Suc ?top}"
    by (auto simp del: upt_Suc split: if_splits)
  then obtain k where "Some r = match_at fl s p (i + k) cp"
    by blast
  then show ?thesis by metis
qed

lemma json_span:
  assumes "re_search flag_S pat_json content = Some (st, e, cp)"
  shows "st < e \<and> e \<le> length content \<and> content ! st = CHR ''{'' \<and>
         content ! (e - 1) = CHR ''}''"
proof -
  from search_from_Some [OF assms [unfolded re_search_def]]
  have m: "match_at flag_S content
             (Alt [''{''] # Rep Dot 0 None True # [Alt [''}'']]) st [] = Some (e, cp)"
    by (simp add: pat_json_def del: match_at.simps)
  then have w1: "word_at flag_S ''{'' (drop st content)"
    and r: "match_at flag_S content (Rep Dot 0 None True # [Alt [''}'']])
              (st + length ''{'') [] = Some (e, cp)"
    unfolding match_at_lit by (auto simp del: match_at.simps split: if_splits)
  from match_at_Rep_SomeD [OF r] obtain k where
    k: "match_at flag_S content (Alt [''}''] # []) (st + length ''{'' + k) [] = Some (e, cp)"
    by blast
  then have w2: "word_at flag_S ''}'' (drop (st + 1 + k) content)"
    and e: "e = st + 1 + k + 1"
    unfolding match_at_lit by (auto split: if_splits)
  from w1 have "st < length content" "content ! st = CHR ''{''"
    by (simp_all add: word_at_single same_char_flag_S)
  moreover from w2 have "st + 1 + k < length content" "content ! (st + 1 + k) = CHR ''}''"
    by (simp_all add: word_at_single same_char_flag_S)
  ultimately show ?thesis using e by simp
qed

section \<open>Sample runs\<close>

lemma sample_paragraphs:
  "paragraphs_of (clean_text_preserve_headings (PyStr sample_contract)) =
     [''Attachment 1: Service Description'', ''Scope'', ''my scope'', ''## TERM'',
      ''Twelve months'']"
  by code_simp

lemma sample_rounds:
  "align (paragraphs_of (clean_text_preserve_headings (PyStr sample_contract)))
         [''Scope'', ''Term'', ''Fees''] 0 =
     [(''Scope'', Matched 1 3), (''Term'', Matched 3 5), (''Fees'', Unmatched)]"
  by code_simp

lemma sample_marker:
  "re_search flag_I pat_marker sample_contract \<noteq> None"
  by code_simp

lemma sample_run:
  "validate_service_description sample_client sample_loads sample_reference 0 sample_contract =
     (Inr \<lparr>validation_status = ''Mismatch'',
           modified_sections = [fallback_verdict ''Term'' ''no json'']\<rparr>,
      2,
      [(''Scope'', ''scope text'', ''my scope''), (''Term'', ''12 months'', ''Twelve months'')])"
  by code_simp

section \<open>The gate\<close>

text \<open>
  C1: when the raw contract text holds no match of the marker pattern
  \<^verbatim>\<open>attachment\s*1[^a-zA-Z0-9]*service\s*description\<close> (case ignored), the run returns
  the report with status \<^verbatim>\<open>Missing\<close> and no modified sections; the client is left in
  the state it was in and no comparison is asked of it.
\<close>

theorem missing_marker_short_circuits:
  "re_search flag_I pat_marker contract_md_text = None \<Longrightarrow>
   validate_service_description client json_loads FIELDGLASS_REF_MD st contract_md_text =
     (Inr \<lparr>validation_status = ''Missing'', modified_sections = []\<rparr>, st, [])"
  by (simp add: validate_service_description_def)

theorem missing_marker_short_circuits_witness:
  "re_search flag_I pat_marker ''Attachment 2: Pricing'' = None \<and>
   validate_service_description sample_client sample_loads sample_reference 0
       ''Attachment 2: Pricing'' =
     (Inr \<lparr>validation_status = ''Missing'', modified_sections = []\<rparr>, 0, [])"
proof -
  have h: "re_search flag_I pat_marker ''Attachment 2: Pricing'' = None"
    by code_simp
  from missing_marker_short_circuits [OF h] h show ?thesis by simp
qed

text \<open>
  C2: a run that passes the gate and returns a report gives the status
  \<^verbatim>\<open>Mismatch\<close> exactly when the list of modified sections is not empty, and the status
  \<^verbatim>\<open>Correct\<close> exactly when it is empty.
\<close>

theorem status_agrees_with_modified_sections:
  "re_search flag_I pat_marker contract_md_text \<noteq> None \<Longrightarrow>
   validate_service_description client json_loads FIELDGLASS_REF_MD st contract_md_text =
     (Inr rep, st', calls) \<Longrightarrow>
   (validation_status rep = ''Mismatch'' \<longleftrightarrow> modified_sections rep \<noteq> []) \<and>
   (validation_status rep = ''Correct'' \<longleftrightarrow> modified_sections rep = [])"
  by (auto simp: validate_service_description_def Let_def
           split: prod.splits sum.splits if_splits)

theorem status_agrees_with_modified_sections_witness:
  "re_search flag_I pat_marker sample_contract \<noteq> None \<and>
   validate_service_description sample_client sample_loads sample_reference 0 sample_contract =
     (Inr \<lparr>validation_status = ''Mismatch'',
           modified_sections = [fallback_verdict ''Term'' ''no json'']\<rparr>,
      2,
      [(''Scope'', ''scope text'', ''my scope''), (''Term'', ''12 months'', ''Twelve months'')]) \<and>
   validation_status \<lparr>validation_status = ''Mismatch'',
           modified_sections = [fallback_verdict ''Term'' ''no json'']\<rparr> \<noteq> ''Correct'' \<and>
   modified_sections \<lparr>validation_status = ''Mismatch'',
           modified_sections = [fallback_verdict ''Term'' ''no json'']\<rparr> \<noteq> []"
  using status_agrees_with_modified_sections [OF sample_marker sample_run]
    sample_marker sample_run by simp

section \<open>The aligner\<close>

text \<open>
  C3, as amended: for a list of reference headings without a repeated title, the
  dictionary of aligned sections holds one entry for each heading, in reference order,
  and a heading that no paragraph of the contract matches is present with the empty
  text.  (With a repeated title the dictionary holds a single entry for it: the claim
  as written, for every heading list, fails; see the counterexample.)
\<close>

theorem one_entry_per_distinct_heading:
  assumes "distinct ref_headings"
  shows "map fst (extract_contract_sections contract_text ref_headings) = ref_headings \<and>
         (\<forall>h\<in>set ref_headings.
            (\<forall>p\<in>set (paragraphs_of (clean_text_preserve_headings contract_text)).
                p_clean p \<noteq> lower h) \<longrightarrow>
            map_of (extract_contract_sections contract_text ref_headings) h = Some [])"
proof -
  let ?ps = "paragraphs_of (clean_text_preserve_headings contract_text)"
  let ?rs = "align ?ps ref_headings 0"
  have keys: "map fst ?rs = ref_headings" by (rule align_keys)
  have ex: "extract_contract_sections contract_text ref_headings = fold (store_section ?ps) ?rs []"
    by (simp add: extract_contract_sections_def Let_def)
  from fold_store_keys [where rs = ?rs and d = "[]" and ps = ?ps] assms keys
  have "map fst (fold (store_section ?ps) ?rs []) = map fst ?rs"
    by simp
  with keys ex have one: "map fst (extract_contract_sections contract_text ref_headings) = ref_headings"
    by simp
  have "map_of (extract_contract_sections contract_text ref_headings) h = Some []"
    if h: "h \<in> set ref_headings" and no: "\<forall>p\<in>set ?ps. p_clean p \<noteq> lower h" for h
  proof -
    from h keys have "h \<in> fst ` set ?rs" by (metis set_map)
    moreover have "\<forall>sp. (h, sp) \<in> set ?rs \<longrightarrow> section_text ?ps sp = []"
      using align_unmatched [OF _ no] by fastforce
    ultimately show ?thesis unfolding ex by (rule fold_store_same)
  qed
  with one show ?thesis by blast
qed

theorem one_entry_per_distinct_heading_witness:
  "distinct [''Scope'', ''Term'', ''Fees''] \<and>
   map fst (extract_contract_sections (PyStr sample_contract) [''Scope'', ''Term'', ''Fees'']) =
     [''Scope'', ''Term'', ''Fees''] \<and>
   map_of (extract_contract_sections (PyStr sample_contract) [''Scope'', ''Term'', ''Fees''])
     ''Fees'' = Some []"
proof -
  have d: "distinct [''Scope'', ''Term'', ''Fees'']" by simp
  have no: "\<forall>p\<in>set (paragraphs_of (clean_text_preserve_headings (PyStr sample_contract))).
       p_clean p \<noteq> lower ''Fees''"
    unfolding sample_paragraphs by code_simp
  from one_entry_per_distinct_heading [OF d, of "PyStr sample_contract"] d no
  show ?thesis by simp
qed

theorem repeated_heading_counterexample:
  "map fst (extract_contract_sections (PyStr ''A'') [''A'', ''A'']) \<noteq> [''A'', ''A'']"
  by code_simp

text \<open>
  C4: when two rounds of the aligner's loop both find their heading, the one for the
  earlier reference heading finds it at an earlier paragraph of the contract.
\<close>

theorem headings_found_in_document_order:
  assumes "rounds = align (paragraphs_of (clean_text_preserve_headings contract_text))
                          ref_headings 0"
    and "i < j" and "j < length ref_headings"
    and "snd (rounds ! i) = Matched p_i e_i"
    and "snd (rounds ! j) = Matched p_j e_j"
  shows "p_i < p_j"
proof -
  from assms(2,3) have i: "i < length ref_headings" by simp
  from align_nth_spans [OF i] assms(1,4) have "p_i < e_i" by simp
  moreover from align_order [OF assms(2,3)] assms(1,4,5) have "e_i \<le> p_j" by simp
  ultimately show ?thesis by simp
qed

theorem headings_found_in_document_order_witness:
  "(0::nat) < 1 \<and> (1::nat) < length [''Scope'', ''Term'', ''Fees''] \<and>
   snd (align (paragraphs_of (clean_text_preserve_headings (PyStr sample_contract)))
              [''Scope'', ''Term'', ''Fees''] 0 ! 0) = Matched 1 3 \<and>
   snd (align (paragraphs_of (clean_text_preserve_headings (PyStr sample_contract)))
              [''Scope'', ''Term'', ''Fees''] 0 ! 1) = Matched 3 5 \<and>
   (1::nat) < 3"
proof -
  have a: "(0::nat) < 1" and b: "(1::nat) < length [''Scope'', ''Term'', ''Fees'']"
    by simp_all
  have c: "snd (align (paragraphs_of (clean_text_preserve_headings (PyStr sample_contract)))
              [''Scope'', ''Term'', ''Fees''] 0 ! 0) = Matched 1 3"
    and d: "snd (align (paragraphs_of (clean_text_preserve_headings (PyStr sample_contract)))
              [''Scope'', ''Term'', ''Fees''] 0 ! 1) = Matched 3 5"
    unfolding sample_rounds by simp_all
  from headings_found_in_document_order [OF refl a b c d] a b c d
  show ?thesis by blast
qed

text \<open>
  C10: the bodies of the aligned sections are taken from spans of paragraphs that do
  not overlap: the body of a round that found its heading at \<open>f\<close> and ended at \<open>e\<close> is
  made of the paragraphs \<open>f + 1, \<dots>, e - 1\<close>; two different rounds have no paragraph in
  common, and the paragraph at which a round found its heading lies in no body.
\<close>

theorem section_bodies_do_not_overlap:
  assumes "rounds = align (paragraphs_of (clean_text_preserve_headings contract_text))
                          ref_headings 0"
    and "i < length ref_headings" and "j < length ref_headings"
    and "snd (rounds ! i) = Matched f_i e_i"
    and "snd (rounds ! j) = Matched f_j e_j"
  shows "section_text (paragraphs_of (clean_text_preserve_headings contract_text))
             (snd (rounds ! i)) =
           strip (join [NL, NL]
             (slice (paragraphs_of (clean_text_preserve_headings contract_text)) (f_i + 1) e_i)) \<and>
         (i \<noteq> j \<longrightarrow> {f_i + 1..<e_i} \<inter> {f_j + 1..<e_j} = {}) \<and>
         f_j \<notin> {f_i + 1..<e_i}"
proof -
  let ?ps = "paragraphs_of (clean_text_preserve_headings contract_text)"
  from align_nth_spans [OF assms(2)] assms(1,4) have si: "f_i < e_i" by simp
  from align_nth_spans [OF assms(3)] assms(1,5) have sj: "f_j < e_j" by simp
  have lt: "e_i \<le> f_j" if "i < j"
    using align_order [OF that assms(3)] assms(1,4,5) by simp
  have gt: "e_j \<le> f_i" if "j < i"
    using align_order [OF that assms(2)] assms(1,4,5) by simp
  have eq: "f_i = f_j \<and> e_i = e_j" if "i = j"
    using that assms(4,5) by simp
  have body: "section_text ?ps (snd (rounds ! i)) =
      strip (join [NL, NL] (slice ?ps (f_i + 1) e_i))"
    using assms(4) by simp
  have disj: "{f_i + 1..<e_i} \<inter> {f_j + 1..<e_j} = {}" if "i \<noteq> j"
  proof (cases "i < j")
    case True
    from lt [OF True] sj show ?thesis by auto
  next
    case False
    with that have "j < i" by simp
    from gt [OF this] si show ?thesis by auto
  qed
  have own: "f_j \<notin> {f_i + 1..<e_i}"
  proof (cases i j rule: linorder_cases)
    case less
    from lt [OF less] show ?thesis by simp
  next
    case equal
    from eq [OF equal] show ?thesis by simp
  next
    case greater
    from gt [OF greater] sj show ?thesis by simp
  qed
  from body disj own show ?thesis by blast
qed

theorem section_bodies_do_not_overlap_witness:
  "(0::nat) < length [''Scope'', ''Term'', ''Fees''] \<and>
   (1::nat) < length [''Scope'', ''Term'', ''Fees''] \<and>
   snd (align (paragraphs_of (clean_text_preserve_headings (PyStr sample_contract)))
              [''Scope'', ''Term'', ''Fees''] 0 ! 0) = Matched 1 3 \<and>
   snd (align (paragraphs_of (clean_text_preserve_headings (PyStr sample_contract)))
              [''Scope'', ''Term'', ''Fees''] 0 ! 1) = Matched 3 5 \<and>
   (0::nat) \<noteq> 1 \<and> {1 + 1..<3} \<inter> {3 + 1..<5} = ({}::nat set) \<and> (3::nat) \<notin> {1 + 1..<3}"
proof -
  have a: "(0::nat) < length [''Scope'', ''Term'', ''Fees'']"
    and b: "(1::nat) < length [''Scope'', ''Term'', ''Fees'']"
    by simp_all
  have c: "snd (align (paragraphs_of (clean_text_preserve_headings (PyStr sample_contract)))
              [''Scope'', ''Term'', ''Fees''] 0 ! 0) = Matched 1 3"
    and d: "snd (align (paragraphs_of (clean_text_preserve_headings (PyStr sample_contract)))
              [''Scope'', ''Term'', ''Fees''] 0 ! 1) = Matched 3 5"
    unfolding sample_rounds by simp_all
  have e: "(0::nat) \<noteq> 1" by simp
  from section_bodies_do_not_overlap [OF refl a b c d] a b c d e
  show ?thesis by blast
qed

section \<open>The cleaner\<close>

text \<open>
  C8: the cleaner has a value on every input, none of its branches raises, and on
  every input that is not a string the value is the empty string.
\<close>

theorem cleaner_of_non_string:
  "\<not> isinstance_str v \<Longrightarrow> clean_text_preserve_headings v = []"
  by (simp add: clean_text_preserve_headings_def)

theorem cleaner_of_non_string_witness:
  "\<not> isinstance_str PyNone \<and> clean_text_preserve_headings PyNone = []"
proof -
  have h: "\<not> isinstance_str PyNone" by simp
  from cleaner_of_non_string [OF h] h show ?thesis by simp
qed

section \<open>The comparator and the aggregation\<close>

text \<open>
  C5: a reference section whose aligned contract text is empty or blank takes no part
  in the comparison.  The loop over the reference sections runs as it would without
  these sections, so that they add no call and no entry; every call of a run is for a
  heading whose aligned text is not blank; and a heading that no paragraph of the
  contract matches has the empty text and is in no call.
\<close>

theorem blank_sections_take_no_part:
  assumes "contract_sections = extract_contract_sections (PyStr contract_md_text)
             (map fst (extract_reference_sections FIELDGLASS_REF_MD))"
  shows "compare_sections client json_loads contract_sections secs st0 calls acc =
           compare_sections client json_loads contract_sections
             (filter (\<lambda>(h, r). strip (section_get contract_sections h) \<noteq> []) secs)
             st0 calls acc \<and>
         (validate_service_description client json_loads FIELDGLASS_REF_MD st contract_md_text =
            (res, st', log) \<longrightarrow>
          (\<forall>(h, r, c)\<in>set log. c = section_get contract_sections h \<and> strip c \<noteq> []) \<and>
          ((\<forall>p\<in>set (paragraphs_of (clean_text_preserve_headings (PyStr contract_md_text))).
               p_clean p \<noteq> lower heading) \<longrightarrow>
           section_get contract_sections heading = [] \<and> heading \<notin> fst ` set log))"
proof -
  let ?ref = "extract_reference_sections FIELDGLASS_REF_MD"
  have skip: "compare_sections client json_loads contract_sections secs st0 calls acc =
           compare_sections client json_loads contract_sections
             (filter (\<lambda>(h, r). strip (section_get contract_sections h) \<noteq> []) secs)
             st0 calls acc"
    by (rule compare_sections_skips_blank)
  have run: "(\<forall>(h, r, c)\<in>set log. c = section_get contract_sections h \<and> strip c \<noteq> []) \<and>
          ((\<forall>p\<in>set (paragraphs_of (clean_text_preserve_headings (PyStr contract_md_text))).
               p_clean p \<noteq> lower heading) \<longrightarrow>
           section_get contract_sections heading = [] \<and> heading \<notin> fst ` set log)"
    if v: "validate_service_description client json_loads FIELDGLASS_REF_MD st contract_md_text =
            (res, st', log)"
  proof -
    have log: "\<forall>(h, r, c)\<in>set log. c = section_get contract_sections h \<and> strip c \<noteq> []"
    proof (cases "re_search flag_I pat_marker contract_md_text = None")
      case True
      with v have "log = []" by (simp add: validate_service_description_def)
      then show ?thesis by simp
    next
      case False
      obtain out st1 log1 where c:
        "compare_sections client json_loads contract_sections ?ref st [] [] = (out, st1, log1)"
        by (metis prod_cases3)
      with v False assms have "log = log1"
        by (auto simp: validate_service_description_def Let_def split: sum.splits)
      with compare_sections_calls [OF c] show ?thesis by auto
    qed
    have "section_get contract_sections heading = [] \<and> heading \<notin> fst ` set log"
      if no: "\<forall>p\<in>set (paragraphs_of (clean_text_preserve_headings (PyStr contract_md_text))).
               p_clean p \<noteq> lower heading"
    proof -
      from unmatched_heading_empty [OF no] assms
      have e: "section_get contract_sections heading = []" by simp
      have "heading \<notin> fst ` set log"
      proof
        assume "heading \<in> fst ` set log"
        then obtain r c where "(heading, r, c) \<in> set log" by auto
        with log have "strip (section_get contract_sections heading) \<noteq> []" by auto
        with e show False by (simp add: strip_def)
      qed
      with e show ?thesis by simp
    qed
    with log show ?thesis by blast
  qed
  from skip run show ?thesis by blast
qed

theorem blank_sections_take_no_part_witness:
  "validate_service_description sample_client sample_loads sample_reference 0 sample_contract =
     (Inr \<lparr>validation_status = ''Mismatch'',
           modified_sections = [fallback_verdict ''Term'' ''no json'']\<rparr>,
      2,
      [(''Scope'', ''scope text'', ''my scope''), (''Term'', ''12 months'', ''Twelve months'')]) \<and>
   section_get (extract_contract_sections (PyStr sample_contract)
                  (map fst (extract_reference_sections sample_reference))) ''Fees'' = [] \<and>
   ''Fees'' \<notin> fst ` set [(''Scope'', ''scope text'', ''my scope''),
                          (''Term'', ''12 months'', ''Twelve months'')]"
proof -
  have no: "\<forall>p\<in>set (paragraphs_of (clean_text_preserve_headings (PyStr sample_contract))).
       p_clean p \<noteq> lower ''Fees''"
    unfolding sample_paragraphs by code_simp
  from blank_sections_take_no_part [OF refl, where client = sample_client
      and json_loads = sample_loads and FIELDGLASS_REF_MD = sample_reference
      and contract_md_text = sample_contract and st = 0 and heading = "''Fees''"]
    sample_run no
  show ?thesis by blast
qed

lemma fallback_on_decode_error:
  assumes "client st (messages_of ref_heading ref_text con_text) = (Inr (Some content), st')"
    and "case re_search flag_S pat_json content of
           None \<Rightarrow> True
         | Some m \<Rightarrow> json_loads (group content m 0) = Inl JSONDecodeError"
  shows "compare_section_with_gpt client json_loads st ref_heading ref_text con_text =
           (Inr (fallback_verdict ref_heading content), st')"
proof (cases "re_search flag_S pat_json content")
  case None
  with assms(1) show ?thesis by (simp add: compare_section_with_gpt_def)
next
  case (Some m)
  with assms(2) have "json_loads (group content m 0) = Inl JSONDecodeError" by simp
  with Some assms(1) show ?thesis by (simp add: compare_section_with_gpt_def)
qed

lemma other_decoder_error_is_raised:
  assumes "client st (messages_of ref_heading ref_text con_text) = (Inr (Some content), st')"
    and "re_search flag_S pat_json content = Some m"
    and "json_loads (group content m 0) = Inl e"
    and "e \<noteq> JSONDecodeError"
  shows "compare_section_with_gpt client json_loads st ref_heading ref_text con_text =
           (Inl e, st')"
  using assms by (simp add: compare_section_with_gpt_def)

text \<open>
  On a text that starts with \<^verbatim>\<open>{\<close> and ends with \<^verbatim>\<open>}\<close> the greedy pattern takes the
  whole text.
\<close>

lemma json_span_whole:
  assumes "s = CHR ''{'' # body @ ''}''"
  shows "re_search flag_S pat_json s = Some (0, length s, [])"
proof -
  let ?n = "length body"
  have len: "length s = Suc (Suc ?n)" using assms by simp
  have dot: "takeWhile (cls_match flag_S Dot) xs = xs" for xs
    by (simp add: flag_S_def no_flags_def)
  have last: "drop (Suc ?n) s = ''}''" using assms by simp
  have close: "match_at flag_S s [Alt [''}'']] (Suc ?n) [] = Some (Suc (Suc ?n), [])"
    unfolding match_at_lit using last by (simp add: same_char_flag_S)
  have over: "match_at flag_S s [Alt [''}'']] (Suc (Suc ?n)) [] = None"
    unfolding match_at_lit using len by simp
  have counts: "rev [0..<Suc (Suc ?n)] = Suc ?n # ?n # rev [0..<?n]"
    by simp
  have run: "length (takeWhile (cls_match flag_S Dot) (drop (Suc 0) s)) = Suc ?n"
    unfolding dot using len by simp
  have rest: "match_at flag_S s (Rep Dot 0 None True # [Alt [''}'']]) (Suc 0) [] =
      Some (Suc (Suc ?n), [])"
    unfolding match_at.simps(3) Let_def run option.case if_True counts
    using close over by (simp del: match_at.simps)
  have "word_at flag_S ''{'' (drop 0 s)"
    using assms by (simp add: same_char_flag_S)
  with rest have m: "match_at flag_S s pat_json 0 [] = Some (length s, [])"
    unfolding pat_json_def match_at_lit len by (simp del: match_at.simps)
  have "[0..<Suc (length s)] = 0 # [Suc 0..<Suc (length s)]"
    by (rule upt_conv_Cons) simp
  with m show ?thesis
    unfolding re_search_def search_from_def by (simp del: upt_Suc)
qed

lemma deep_answer_is_raised:
  "compare_section_with_gpt deep_client deep_loads () ''H'' ''r'' ''c'' =
     (Inl RecursionError, ())"
proof -
  have shape: "deep_answer = CHR ''{'' # (''\"a\":'' @ replicate 1000 (CHR ''['')) @ ''}''"
    by (simp add: deep_answer_def)
  have span: "re_search flag_S pat_json deep_answer = Some (0, length deep_answer, [])"
    using shape by (rule json_span_whole)
  have whole: "group deep_answer (0, length deep_answer, []) 0 = deep_answer"
    by (simp add: group_def slice_def)
  have a: "deep_client () (messages_of ''H'' ''r'' ''c'') = (Inr (Some deep_answer), ())"
    by (simp add: deep_client_def)
  have e: "deep_loads (group deep_answer (0, length deep_answer, []) 0) = Inl RecursionError"
    unfolding whole by (simp add: deep_loads_def)
  from a span e show ?thesis
    by (rule other_decoder_error_is_raised) simp
qed

text \<open>
  C6, as amended: when the client answers with a text in which \<^verbatim>\<open>json.loads\<close> raises
  \<^verbatim>\<open>JSONDecodeError\<close> on every piece from a \<^verbatim>\<open>{\<close> to a \<^verbatim>\<open>}\<close>, the comparator does not
  raise; its verdict has the status \<^verbatim>\<open>Modified\<close>, and its summary is the first 400
  characters of the answer in which every newline has been replaced by a space.  (The
  summary is not a cut copy of the answer as it came: see the counterexample, an answer
  of two lines.  Nothing is said here of an answer on which \<^verbatim>\<open>json.loads\<close> raises
  another exception: the handler does not catch it and the comparator raises, as in
  \<open>other_decoder_error_is_raised\<close>.)
\<close>

theorem unparseable_answer_gives_modified:
  assumes "client st (messages_of ref_heading ref_text con_text) = (Inr (Some content), st')"
    and "\<forall>a b. a < b \<and> b \<le> length content \<and> content ! a = CHR ''{'' \<and>
               content ! (b - 1) = CHR ''}'' \<longrightarrow>
               json_loads (slice content a b) = Inl JSONDecodeError"
  shows "compare_section_with_gpt client json_loads st ref_heading ref_text con_text =
           (Inr (fallback_verdict ref_heading content), st') \<and>
         py_get (fallback_verdict ref_heading content) ''status'' = Inr (PyStr ''Modified'') \<and>
         py_get (fallback_verdict ref_heading content) ''difference_summary'' =
           Inr (PyStr (take 400 (replace_char NL '' '' content)))"
proof -
  have "case re_search flag_S pat_json content of
           None \<Rightarrow> True
         | Some m \<Rightarrow> json_loads (group content m 0) = Inl JSONDecodeError"
  proof (cases "re_search flag_S pat_json content")
    case None
    then show ?thesis by simp
  next
    case (Some m)
    obtain a b cp where m: "m = (a, b, cp)" by (cases m)
    from json_span [of content a b cp] Some m assms(2)
    have "json_loads (slice content a b) = Inl JSONDecodeError" by simp
    with Some m show ?thesis by (simp add: group_def)
  qed
  with assms(1)
  have "compare_section_with_gpt client json_loads st ref_heading ref_text con_text =
           (Inr (fallback_verdict ref_heading content), st')"
    by (rule fallback_on_decode_error)
  then show ?thesis by (simp add: fallback_verdict_def)
qed

theorem unparseable_answer_gives_modified_witness:
  "braces_client () (messages_of ''Term'' ''12 months'' ''Twelve months'') =
     (Inr (Some ''I cannot {compare} these''), ()) \<and>
   compare_section_with_gpt braces_client sample_loads () ''Term'' ''12 months''
       ''Twelve months'' =
     (Inr (fallback_verdict ''Term'' ''I cannot {compare} these''), ()) \<and>
   py_get (fallback_verdict ''Term'' ''I cannot {compare} these'') ''status'' =
     Inr (PyStr ''Modified'') \<and>
   py_get (fallback_verdict ''Term'' ''I cannot {compare} these'') ''difference_summary'' =
     Inr (PyStr ''I cannot {compare} these'')"
proof -
  have a: "braces_client () (messages_of ''Term'' ''12 months'' ''Twelve months'') =
      (Inr (Some ''I cannot {compare} these''), ())"
    by (simp add: braces_client_def)
  have len: "length sample_object = 75"
    by (simp add: sample_object_def)
  have short: "sample_loads t = Inl JSONDecodeError" if "length t \<le> 24" for t
    using that len by (auto simp: sample_loads_def)
  have "length (slice ''I cannot {compare} these'' a b) \<le> 24" for a b
    by (simp add: slice_def)
  then have b: "\<forall>a b. a < b \<and> b \<le> length ''I cannot {compare} these'' \<and>
          ''I cannot {compare} these'' ! a = CHR ''{'' \<and>
          ''I cannot {compare} these'' ! (b - 1) = CHR ''}'' \<longrightarrow>
          sample_loads (slice ''I cannot {compare} these'' a b) = Inl JSONDecodeError"
    using short by blast
  have c: "take 400 (replace_char NL '' '' ''I cannot {compare} these'') =
      ''I cannot {compare} these''"
    by code_simp
  from unparseable_answer_gives_modified [where client = braces_client and st = "()"
      and json_loads = sample_loads and content = "''I cannot {compare} these''"
      and st' = "()" and ref_heading = "''Term''" and ref_text = "''12 months''"
      and con_text = "''Twelve months''", OF a b] a c
  show ?thesis by simp
qed

theorem summary_is_not_a_cut_copy_counterexample:
  "compare_section_with_gpt two_line_client no_json () ''H'' ''r'' ''c'' =
     (Inr (PyDict [(PyStr ''section'', PyStr ''H''),
                   (PyStr ''status'', PyStr ''Modified''),
                   (PyStr ''difference_summary'', PyStr ''a b'')]), ()) \<and>
   \<not> prefix ''a b'' ''a\<newline>b''"
  by code_simp

text \<open>
  C9: when the comparator returns a dictionary whose \<^verbatim>\<open>status\<close> is anything but the
  string \<^verbatim>\<open>Modified\<close>, or is missing, the loop goes on with \<^verbatim>\<open>modified_results\<close> as
  it was: the section adds no entry, whatever the dictionary holds, just as for the
  status \<^verbatim>\<open>Match\<close>.
\<close>

theorem other_status_adds_no_entry:
  assumes "strip (section_get contract_sections heading) \<noteq> []"
    and "compare_section_with_gpt client json_loads st heading ref_text
           (section_get contract_sections heading) = (Inr (PyDict kvs), st')"
    and "map_of kvs (PyStr ''status'') \<noteq> Some (PyStr ''Modified'')"
  shows "compare_sections client json_loads contract_sections ((heading, ref_text) # later)
           st calls modified_results =
         compare_sections client json_loads contract_sections later st'
           (calls @ [(heading, ref_text, section_get contract_sections heading)])
           modified_results"
proof -
  from assms(3) have "(case map_of kvs (PyStr ''status'') of Some v \<Rightarrow> v | None \<Rightarrow> PyNone)
      \<noteq> PyStr ''Modified''"
    by (cases "map_of kvs (PyStr ''status'')") auto
  with assms(1,2) show ?thesis by (simp add: Let_def)
qed

theorem other_status_adds_no_entry_witness:
  "strip (section_get [(''Scope'', ''my scope'')] ''Scope'') \<noteq> [] \<and>
   compare_section_with_gpt sample_client sample_loads 0 ''Scope'' ''scope text''
       (section_get [(''Scope'', ''my scope'')] ''Scope'') =
     (Inr (PyDict [(PyStr ''section'', PyStr ''Scope''),
                   (PyStr ''status'', PyStr ''modified''),
                   (PyStr ''difference_summary'', PyStr ''wording'')]), 1) \<and>
   map_of [(PyStr ''section'', PyStr ''Scope''),
           (PyStr ''status'', PyStr ''modified''),
           (PyStr ''difference_summary'', PyStr ''wording'')] (PyStr ''status'') \<noteq>
     Some (PyStr ''Modified'') \<and>
   compare_sections sample_client sample_loads [(''Scope'', ''my scope'')]
       [(''Scope'', ''scope text'')] 0 [] [] =
     (Inr [], 1, [(''Scope'', ''scope text'', ''my scope'')])"
proof -
  have a: "strip (section_get [(''Scope'', ''my scope'')] ''Scope'') \<noteq> []"
    by code_simp
  have b: "compare_section_with_gpt sample_client sample_loads 0 ''Scope'' ''scope text''
       (section_get [(''Scope'', ''my scope'')] ''Scope'') =
     (Inr (PyDict [(PyStr ''section'', PyStr ''Scope''),
                   (PyStr ''status'', PyStr ''modified''),
                   (PyStr ''difference_summary'', PyStr ''wording'')]), 1)"
    by code_simp
  have c: "map_of [(PyStr ''section'', PyStr ''Scope''),
           (PyStr ''status'', PyStr ''modified''),
           (PyStr ''difference_summary'', PyStr ''wording'')] (PyStr ''status'') \<noteq>
      Some (PyStr ''Modified'')"
    by simp
  have d: "section_get [(''Scope'', ''my scope'')] ''Scope'' = ''my scope''"
    by (simp add: section_get_def)
  from other_status_adds_no_entry [OF a b c, of "[]" "[]" "[]"] a b c d
  show ?thesis by simp
qed

section \<open>The segmenter\<close>

text \<open>
  C7, as amended: when the cleaned text has a heading, the headings as they were
  matched, each followed by the characters up to the next heading or to the end of the
  text, make up the cleaned text from the start of the first heading on, every character
  once; the title of a section is group 2 of its heading, stripped, and its body the
  characters behind the heading, stripped.  (The titles and bodies themselves, put
  together, do not give the text back, since the markers and the blank space around
  them are gone: see the counterexample.)
\<close>

theorem heading_spans_make_up_text:
  assumes "clean_text = clean_text_preserve_headings md_text"
    and "headings = finditer flag_M pat_heading clean_text"
    and "headings \<noteq> []"
  shows "concat (map (\<lambda>(h, b). h @ b) (heading_spans clean_text headings)) =
           drop (fst (hd headings)) clean_text \<and>
         extract_sections_from_text md_text =
           map (\<lambda>(m, h, b). (strip (group clean_text m 2), strip b))
               (zip headings (heading_spans clean_text headings))"
proof -
  from assms(2) have "chained (length clean_text) 0 headings"
    by (simp add: finditer_chained)
  from heading_spans_tile [OF this assms(3)]
  have "concat (map (\<lambda>(h, b). h @ b) (heading_spans clean_text headings)) =
           drop (fst (hd headings)) clean_text" .
  moreover from assms(1,2) have "extract_sections_from_text md_text =
           map (\<lambda>(m, h, b). (strip (group clean_text m 2), strip b))
               (zip headings (heading_spans clean_text headings))"
    by (simp add: extract_sections_from_text_def Let_def sections_of_spans)
  ultimately show ?thesis by simp
qed

theorem heading_spans_make_up_text_witness:
  "finditer flag_M pat_heading
     (clean_text_preserve_headings (PyStr ''intro\<newline># A\<newline>body\<newline>## B \<newline>more'')) \<noteq> [] \<and>
   concat (map (\<lambda>(h, b). h @ b)
     (heading_spans (clean_text_preserve_headings (PyStr ''intro\<newline># A\<newline>body\<newline>## B \<newline>more''))
        (finditer flag_M pat_heading
           (clean_text_preserve_headings (PyStr ''intro\<newline># A\<newline>body\<newline>## B \<newline>more''))))) =
     ''# A\<newline>body\<newline>## B \<newline>more''"
proof -
  have h: "finditer flag_M pat_heading
     (clean_text_preserve_headings (PyStr ''intro\<newline># A\<newline>body\<newline>## B \<newline>more'')) \<noteq> []"
    by code_simp
  have d: "drop (fst (hd (finditer flag_M pat_heading
     (clean_text_preserve_headings (PyStr ''intro\<newline># A\<newline>body\<newline>## B \<newline>more'')))))
     (clean_text_preserve_headings (PyStr ''intro\<newline># A\<newline>body\<newline>## B \<newline>more'')) =
     ''# A\<newline>body\<newline>## B \<newline>more''"
    by code_simp
  from heading_spans_make_up_text [OF refl refl h] h d show ?thesis by simp
qed

theorem titles_and_bodies_counterexample:
  "clean_text_preserve_headings (PyStr ''# A\<newline>body'') = ''# A\<newline>body'' \<and>
   extract_sections_from_text (PyStr ''# A\<newline>body'') = [(''A'', ''body'')] \<and>
   concat (map (case_prod append) (extract_sections_from_text (PyStr ''# A\<newline>body''))) \<noteq>
     ''# A\<newline>body'' \<and>
   concat (map (case_prod append) (extract_sections_from_text (PyStr ''# A\<newline>body''))) \<noteq>
     ''\<newline>body''"
  by code_simp

end
